theory Spec2Isabelle
  imports Main
begin

section \<open>The window registry of \<open>AppsContext.tsx\<close>\<close>

subsection \<open>Data model\<close>

text \<open>
  \<open>WindowAppTypes\<close> is the closed union \<open>'calculator' | 'tasks' | 'other-app'\<close> that the
  \<open>switch\<close> of \<open>createApp\<close> matches exhaustively.
\<close>

datatype WindowAppTypes = calculator | tasks | other_app

text \<open>\<open>minSize\<close> is an object with the two string fields \<open>width\<close> and \<open>height\<close>.\<close>

record Size =
  width :: string
  height :: string

text \<open>
  \<open>WindowApp\<close> is the object built by \<open>createApp\<close>: the fields of \<open>initialProps\<close>
  (\<open>id\<close>, \<open>type\<close>, \<open>isFullscreen\<close>, \<open>isMinimalize\<close>, \<open>zIndex\<close>) spread together with
  those of \<open>appProps\<close> (\<open>iconSrc\<close>, \<open>displayName\<close>, \<open>minSize\<close>). The fields \<open>id\<close> and
  \<open>type\<close> are written \<open>app_id\<close> and \<open>app_type\<close>. A \<open>zIndex\<close> is a JavaScript number that
  only ever holds \<open>0\<close>, or a value obtained by adding \<open>1\<close>; it is modelled as an
  integer.
\<close>

record WindowApp =
  app_id :: string
  app_type :: WindowAppTypes
  isFullscreen :: bool
  isMinimalize :: bool
  zIndex :: int
  iconSrc :: string
  displayName :: string
  minSize :: Size

text \<open>
  The two \<open>useState\<close> cells of \<open>AppsContextProvider\<close>: the array \<open>openedApps\<close> and
  \<open>focusedWindowId\<close>, a string or \<open>null\<close>.
\<close>

record AppsState =
  openedApps :: "WindowApp list"
  focusedWindowId :: "string option"

definition initState :: AppsState where
  "initState = \<lparr>openedApps = [], focusedWindowId = None\<rparr>"

subsection \<open>Operations\<close>

text \<open>
  Every action of the provider is a closure over the values of \<open>openedApps\<close> and
  \<open>focusedWindowId\<close> of the render that created it, and it changes the state through the
  setters \<open>setOpenedApps\<close> and \<open>setFocusedWindowId\<close>. The functions below therefore take
  two states: \<open>snap\<close>, the state the closure has captured, and \<open>cur\<close>, the state the
  setters have produced so far in the running event handler. An action that runs alone
  in its event handler has \<open>cur = snap\<close>.

  React applies an updater function passed to \<open>setOpenedApps\<close> either at the call, when
  the component has no update pending, or at the next render, after the handler has
  returned. The updaters always run in the order of the calls. The only updater that
  calls a setter is the one of \<open>setIsMinimalize\<close>, and no action calls
  \<open>setFocusedWindowId\<close> after it, so for an action alone in its handler both times give
  the state written below. The taskbar gesture, which calls two actions in one handler,
  is modelled for both times.

  The source mutates the window objects in place inside \<open>map\<close>; the objects are shared
  with the captured array. No action reads a field of the captured array after a
  mutation of that field in the same handler, so the states are modelled as values.
\<close>

text \<open>\<open>getBiggestZIndex\<close>: \<open>reduce\<close> from the left, starting at \<open>0\<close>.\<close>

definition getBiggestZIndex :: "WindowApp list \<Rightarrow> int" where
  "getBiggestZIndex apps =
     foldl (\<lambda>acc app. if acc < zIndex app then zIndex app else acc) 0 apps"

text \<open>
  \<open>increaseZIndex\<close>: \<open>if (!id) return\<close> leaves the array alone for \<open>null\<close> and for the
  empty string, the two falsy values of \<open>string | null\<close>. Otherwise the biggest index is
  read from the captured array and the updater maps over the current one.
\<close>

definition increaseZIndex :: "AppsState \<Rightarrow> string option \<Rightarrow> AppsState \<Rightarrow> AppsState" where
  "increaseZIndex snap i cur =
     (case i of
        None \<Rightarrow> cur
      | Some j \<Rightarrow>
          if j = [] then cur
          else
            let biggestZIndex = getBiggestZIndex (openedApps snap)
            in cur\<lparr>openedApps :=
                 map (\<lambda>app. if app_id app = j then app\<lparr>zIndex := biggestZIndex + 1\<rparr> else app)
                   (openedApps cur)\<rparr>)"

text \<open>The \<open>switch\<close> of \<open>createApp\<close>, giving \<open>iconSrc\<close>, \<open>displayName\<close> and \<open>minSize\<close>.\<close>

fun appProps :: "WindowAppTypes \<Rightarrow> string \<times> string \<times> Size" where
  "appProps calculator =
     (''./calc-icon.png'', ''Calculator'', \<lparr>width = ''420px'', height = ''600px''\<rparr>)"
| "appProps tasks =
     (''./tasks-icon.png'', ''Tasks'', \<lparr>width = ''600px'', height = ''420px''\<rparr>)"
| "appProps other_app =
     (''./vite.svg'', ''Other App'', \<lparr>width = ''420px'', height = ''100px''\<rparr>)"

text \<open>
  \<open>createApp\<close>. The identifier returned by \<open>uuidv4()\<close> is the argument \<open>newId\<close>.
\<close>

definition createApp :: "AppsState \<Rightarrow> string \<Rightarrow> WindowAppTypes \<Rightarrow> WindowApp" where
  "createApp snap newId ty =
     (let biggestZIndex = getBiggestZIndex (openedApps snap);
          (icon, name, size) = appProps ty
      in \<lparr>app_id = newId, app_type = ty, isFullscreen = False, isMinimalize = False,
          zIndex = biggestZIndex + 1, iconSrc = icon, displayName = name, minSize = size\<rparr>)"

definition handleSetFocusedWindowId :: "AppsState \<Rightarrow> string option \<Rightarrow> AppsState \<Rightarrow> AppsState" where
  "handleSetFocusedWindowId snap i cur = (increaseZIndex snap i cur)\<lparr>focusedWindowId := i\<rparr>"

definition openApp :: "AppsState \<Rightarrow> string \<Rightarrow> WindowAppTypes \<Rightarrow> AppsState \<Rightarrow> AppsState" where
  "openApp snap newId ty cur =
     (let newApp = createApp snap newId ty
      in handleSetFocusedWindowId snap (Some (app_id newApp))
           (cur\<lparr>openedApps := openedApps cur @ [newApp]\<rparr>))"

definition closeApp :: "string \<Rightarrow> AppsState \<Rightarrow> AppsState" where
  "closeApp i cur = cur\<lparr>openedApps := filter (\<lambda>app. app_id app \<noteq> i) (openedApps cur)\<rparr>"

definition closeAllApps :: "AppsState \<Rightarrow> AppsState" where
  "closeAllApps cur = cur\<lparr>openedApps := []\<rparr>"

text \<open>
  \<open>setIsMinimalize\<close>: the updater sets the flag of every window whose id matches, and for
  each such window calls \<open>setFocusedWindowId(null)\<close> when the id is the captured
  \<open>focusedWindowId\<close>. The new flag is not part of that test.
\<close>

definition setIsMinimalize :: "AppsState \<Rightarrow> string \<Rightarrow> bool \<Rightarrow> AppsState \<Rightarrow> AppsState" where
  "setIsMinimalize snap i v cur =
     cur\<lparr>openedApps :=
           map (\<lambda>app. if app_id app = i then app\<lparr>isMinimalize := v\<rparr> else app) (openedApps cur),
         focusedWindowId :=
           (if list_ex (\<lambda>app. app_id app = i) (openedApps cur) \<and> focusedWindowId snap = Some i
            then None else focusedWindowId cur)\<rparr>"

definition setIsFullscreen :: "string \<Rightarrow> bool \<Rightarrow> AppsState \<Rightarrow> AppsState" where
  "setIsFullscreen i v cur =
     cur\<lparr>openedApps :=
           map (\<lambda>app. if app_id app = i then app\<lparr>isFullscreen := v\<rparr> else app) (openedApps cur)\<rparr>"

subsection \<open>One action per event\<close>

text \<open>
  The action API of the context value. \<open>OpenApp\<close> carries the identifier that \<open>uuidv4()\<close>
  returns during the call. \<open>step\<close> runs one action in an event handler of its own, so the
  captured state is the current one.
\<close>

datatype action =
    OpenApp WindowAppTypes string
  | CloseApp string
  | CloseAllApps
  | SetIsMinimalize string bool
  | SetIsFullscreen string bool
  | Focus "string option"

fun step :: "action \<Rightarrow> AppsState \<Rightarrow> AppsState" where
  "step (OpenApp ty newId) s = openApp s newId ty s"
| "step (CloseApp i) s = closeApp i s"
| "step CloseAllApps s = closeAllApps s"
| "step (SetIsMinimalize i v) s = setIsMinimalize s i v s"
| "step (SetIsFullscreen i v) s = setIsFullscreen i v s"
| "step (Focus i) s = handleSetFocusedWindowId s i s"

fun run :: "action list \<Rightarrow> AppsState \<Rightarrow> AppsState" where
  "run [] s = s"
| "run (a # as) s = run as (step a s)"

text \<open>The state after the first \<open>k\<close> actions of a sequence, starting from the empty registry.\<close>

definition state_after :: "action list \<Rightarrow> nat \<Rightarrow> AppsState" where
  "state_after acts k = run (take k acts) initState"

definition ids :: "AppsState \<Rightarrow> string list" where
  "ids s = map app_id (openedApps s)"

text \<open>
  A condition on the actions of a sequence, each one tested in the state in which it
  runs.
\<close>

fun along :: "(action \<Rightarrow> AppsState \<Rightarrow> bool) \<Rightarrow> action list \<Rightarrow> AppsState \<Rightarrow> bool" where
  "along P [] s = True"
| "along P (a # as) s = (P a s \<and> along P as (step a s))"

text \<open>
  \<open>uuidv4()\<close> never returns an identifier that is in use: along a sequence of actions,
  the identifier of each \<open>OpenApp\<close> is not the id of a window open at that moment.
\<close>

fun fresh_id :: "action \<Rightarrow> AppsState \<Rightarrow> bool" where
  "fresh_id (OpenApp ty newId) s = (newId \<notin> set (ids s))"
| "fresh_id a s = True"

definition fresh_ids :: "action list \<Rightarrow> AppsState \<Rightarrow> bool" where
  "fresh_ids acts s = along fresh_id acts s"

fun is_open_or_focus :: "action \<Rightarrow> bool" where
  "is_open_or_focus (OpenApp ty newId) = True"
| "is_open_or_focus (Focus i) = True"
| "is_open_or_focus a = False"

text \<open>
  The window an action assigns a \<open>zIndex\<close> to: the new window of \<open>openApp\<close>, the window
  named by a \<open>focus\<close> whose argument is truthy; no window otherwise.
\<close>

fun affected :: "action \<Rightarrow> string \<Rightarrow> bool" where
  "affected (OpenApp ty newId) j = (j = newId)"
| "affected (Focus (Some i)) j = (i \<noteq> [] \<and> j = i)"
| "affected a j = False"

text \<open>
  The stacking invariant: the open windows have pairwise different ids and pairwise
  different indices, and every index is at least \<open>1\<close>.
\<close>

definition zorder_inv :: "AppsState \<Rightarrow> bool" where
  "zorder_inv s \<longleftrightarrow>
     distinct (ids s) \<and> distinct (map zIndex (openedApps s))
     \<and> list_all (\<lambda>app. 1 \<le> zIndex app) (openedApps s)"

text \<open>
  An action keeps the target of the focus when it does not close the focused window
  (\<open>closeApp\<close> of the focused id, \<open>closeAllApps\<close> while a window is focused) and does not
  focus an id that no open window has.
\<close>

fun keeps_focus_target :: "action \<Rightarrow> AppsState \<Rightarrow> bool" where
  "keeps_focus_target (CloseApp i) s = (focusedWindowId s \<noteq> Some i)"
| "keeps_focus_target CloseAllApps s = (focusedWindowId s = None)"
| "keeps_focus_target (Focus (Some i)) s = (i \<in> set (ids s))"
| "keeps_focus_target a s = True"

text \<open>The focus is \<open>null\<close> or the id of an open window.\<close>

definition focus_open :: "AppsState \<Rightarrow> bool" where
  "focus_open s \<longleftrightarrow>
     (case focusedWindowId s of None \<Rightarrow> True | Some i \<Rightarrow> i \<in> set (ids s))"

text \<open>An action focuses a shown window when it is not a \<open>focus\<close> with the id of a minimized window.\<close>

fun focuses_shown :: "action \<Rightarrow> AppsState \<Rightarrow> bool" where
  "focuses_shown (Focus (Some i)) s =
     (\<not> list_ex (\<lambda>app. app_id app = i \<and> isMinimalize app) (openedApps s))"
| "focuses_shown a s = True"

text \<open>A minimized window that is the focused one.\<close>

definition minimized_focused :: "AppsState \<Rightarrow> bool" where
  "minimized_focused s \<longleftrightarrow>
     list_ex (\<lambda>app. isMinimalize app \<and> focusedWindowId s = Some (app_id app)) (openedApps s)"

subsection \<open>The taskbar gesture of the dispatcher\<close>



subsection \<open>The read accessor\<close>

text \<open>
  \<open>createContext<AppsContextValue | null>(null)\<close>: \<open>useContext\<close> gives the value of the
  nearest enclosing provider, and the default \<open>null\<close> when there is none. The enclosing
  providers are a list, nearest first.
\<close>

datatype error = Error string

definition useContext :: "'v option \<Rightarrow> 'v option list \<Rightarrow> 'v option" where
  "useContext dflt providers = (case providers of [] \<Rightarrow> dflt | v # _ \<Rightarrow> v)"

definition useApps :: "'v option list \<Rightarrow> error + 'v" where
  "useApps providers =
     (case useContext None providers of
        None \<Rightarrow> Inl (Error ''useApps has to be used within <AppsContext.Provider>'')
      | Some appsContext \<Rightarrow> Inr appsContext)"

section \<open>Properties\<close>

subsection \<open>The biggest index\<close>

lemma Max_insert_max:
  fixes a b :: int
  assumes "finite S"
  shows "Max (insert (max a b) S) = max a (Max (insert b S))"
proof (cases "S = {}")
  case True
  then show ?thesis by simp
next
  case False
  with assms show ?thesis by (simp add: max.assoc)
qed

lemma foldl_biggest:
  "foldl (\<lambda>acc app. if acc < zIndex app then zIndex app else acc) a apps
     = Max (insert a (zIndex ` set apps))"
proof (induction apps arbitrary: a)
  case Nil
  then show ?case by simp
next
  case (Cons x xs)
  have branch: "(if a < zIndex x then zIndex x else a) = max a (zIndex x)" by simp
  have "foldl (\<lambda>acc app. if acc < zIndex app then zIndex app else acc) a (x # xs)
          = Max (insert (max a (zIndex x)) (zIndex ` set xs))"
    using Cons.IH [of "max a (zIndex x)"] branch by simp
  also have "\<dots> = max a (Max (insert (zIndex x) (zIndex ` set xs)))"
    by (rule Max_insert_max) simp
  also have "\<dots> = Max (insert a (zIndex ` set (x # xs)))" by simp
  finally show ?case .
qed

lemma getBiggestZIndex_Max:
  "getBiggestZIndex apps = Max (insert 0 (zIndex ` set apps))"
  by (simp add: getBiggestZIndex_def foldl_biggest)

subsection \<open>The factory\<close>

text \<open>
  Claim C7. In every registry state and for every fresh identifier, \<open>createApp\<close> gives
  the display name and minimum size of the table (Calculator 420px x 600px, Tasks
  600px x 420px, Other App 420px x 100px), both flags false, and a \<open>zIndex\<close> one above
  the biggest index of the open windows, the biggest index being the maximum of \<open>0\<close>
  and the indices present; on the empty registry that is \<open>1\<close>.
\<close>

theorem createApp_factory:
  "displayName (createApp s newId calculator) = ''Calculator''
   \<and> minSize (createApp s newId calculator) = \<lparr>width = ''420px'', height = ''600px''\<rparr>
   \<and> displayName (createApp s newId tasks) = ''Tasks''
   \<and> minSize (createApp s newId tasks) = \<lparr>width = ''600px'', height = ''420px''\<rparr>
   \<and> displayName (createApp s newId other_app) = ''Other App''
   \<and> minSize (createApp s newId other_app) = \<lparr>width = ''420px'', height = ''100px''\<rparr>
   \<and> isFullscreen (createApp s newId ty) = False
   \<and> isMinimalize (createApp s newId ty) = False
   \<and> zIndex (createApp s newId ty) = Max (insert 0 (zIndex ` set (openedApps s))) + 1
   \<and> zIndex (createApp initState newId ty) = 1"
  by (cases ty) (simp_all add: createApp_def getBiggestZIndex_Max initState_def)

subsection \<open>The read accessor\<close>

text \<open>
  Claim C10. With no enclosing provider \<open>useApps\<close> throws the error with the message
  \<open>useApps has to be used within <AppsContext.Provider>\<close>; inside a provider it returns
  the value of the nearest one.
\<close>

theorem useApps_provider:
  "useApps [] = Inl (Error ''useApps has to be used within <AppsContext.Provider>'')
   \<and> useApps (Some v # outer) = Inr v"
  by (simp add: useApps_def useContext_def)

subsection \<open>Actions on one state\<close>

lemma filter_absent: "i \<notin> set (map app_id apps) \<Longrightarrow> filter (\<lambda>app. app_id app \<noteq> i) apps = apps"
  by (induction apps) auto

lemma map_absent:
  "i \<notin> set (map app_id apps) \<Longrightarrow> map (\<lambda>app. if app_id app = i then f app else app) apps = apps"
  by (induction apps) auto

lemma list_ex_ids: "list_ex (\<lambda>app. app_id app = i) apps \<longleftrightarrow> i \<in> set (map app_id apps)"
  by (induction apps) auto

text \<open>
  Claim C2, as amended. \<open>setIsMinimalize(id, value)\<close> sets \<open>focusedWindowId\<close> to \<open>null\<close>
  exactly when \<open>id\<close> is the focused id and an open window has that id, whatever \<open>value\<close>
  is; in every other case \<open>focusedWindowId\<close> is left unchanged.
\<close>

theorem setIsMinimalize_focus:
  "focusedWindowId (step (SetIsMinimalize i v) s)
     = (if focusedWindowId s = Some i \<and> i \<in> set (ids s) then None else focusedWindowId s)"
  by (simp add: setIsMinimalize_def list_ex_ids ids_def)

text \<open>
  The claim as stated fails: after \<open>openApp('calculator')\<close> has opened and focused the
  window \<open>a\<close>, \<open>setIsMinimalize(a, false)\<close> changes \<open>focusedWindowId\<close>, although the value
  is \<open>false\<close>.
\<close>

theorem setIsMinimalize_false_clears_focus:
  "focusedWindowId (step (OpenApp calculator ''a'') initState) = Some ''a''
   \<and> focusedWindowId (step (SetIsMinimalize ''a'' False) (step (OpenApp calculator ''a'') initState))
       \<noteq> focusedWindowId (step (OpenApp calculator ''a'') initState)"
  by (simp add: setIsMinimalize_def openApp_def handleSetFocusedWindowId_def increaseZIndex_def
      createApp_def initState_def Let_def)

text \<open>
  Claim C3, as amended. For an id that no open window has, \<open>closeApp\<close>,
  \<open>setIsMinimalize\<close> and \<open>setIsFullscreen\<close> leave the whole state unchanged; \<open>focus\<close>
  leaves \<open>openedApps\<close> unchanged and sets \<open>focusedWindowId\<close> to that id. No action has an
  error branch.
\<close>

theorem absent_id_noop:
  assumes "i \<notin> set (ids s)"
  shows "step (CloseApp i) s = s
    \<and> step (SetIsMinimalize i v) s = s
    \<and> step (SetIsFullscreen i v) s = s
    \<and> openedApps (step (Focus (Some i)) s) = openedApps s
    \<and> focusedWindowId (step (Focus (Some i)) s) = Some i"
  using assms
  by (simp add: closeApp_def setIsMinimalize_def setIsFullscreen_def handleSetFocusedWindowId_def
      increaseZIndex_def ids_def filter_absent map_absent list_ex_ids Let_def)

theorem absent_id_noop_witness:
  "''x'' \<notin> set (ids (step (OpenApp calculator ''a'') initState))
   \<and> step (CloseApp ''x'') (step (OpenApp calculator ''a'') initState)
       = step (OpenApp calculator ''a'') initState
   \<and> focusedWindowId (step (Focus (Some ''x'')) (step (OpenApp calculator ''a'') initState))
       = Some ''x''"
proof -
  have absent: "''x'' \<notin> set (ids (step (OpenApp calculator ''a'') initState))"
    by (simp add: openApp_def handleSetFocusedWindowId_def increaseZIndex_def createApp_def
        initState_def ids_def Let_def)
  from absent_id_noop [OF absent] absent show ?thesis by blast
qed

text \<open>
  The claim as stated fails for \<open>focus\<close>: on the empty registry \<open>focus('x')\<close> changes
  \<open>focusedWindowId\<close>.
\<close>

theorem focus_absent_changes_focus:
  "''x'' \<notin> set (ids initState)
   \<and> focusedWindowId (step (Focus (Some ''x'')) initState) \<noteq> focusedWindowId initState"
  by (simp add: handleSetFocusedWindowId_def increaseZIndex_def ids_def initState_def)

text \<open>
  Claim C6. In a state whose windows have non-empty ids (every id is a UUID),
  \<open>focus(id)\<close> with a non-null \<open>id\<close> gives every window with that id the index
  (biggest index) + 1, also when the window holds the biggest index already, changes no
  other window, and sets \<open>focusedWindowId\<close> to \<open>id\<close>; \<open>focus(null)\<close> changes nothing but
  \<open>focusedWindowId\<close>, which becomes \<open>null\<close>.
\<close>

theorem focus_raises:
  assumes "[] \<notin> set (ids s)"
  shows "openedApps (step (Focus (Some i)) s)
       = map (\<lambda>app. if app_id app = i
                    then app\<lparr>zIndex := Max (insert 0 (zIndex ` set (openedApps s))) + 1\<rparr>
                    else app) (openedApps s)
    \<and> focusedWindowId (step (Focus (Some i)) s) = Some i
    \<and> step (Focus None) s = s\<lparr>focusedWindowId := None\<rparr>"
proof (cases "i = []")
  case True
  with assms have "map (\<lambda>app. if app_id app = i
                    then app\<lparr>zIndex := Max (insert 0 (zIndex ` set (openedApps s))) + 1\<rparr>
                    else app) (openedApps s) = openedApps s"
    by (simp add: ids_def map_absent)
  with True show ?thesis
    by (simp add: handleSetFocusedWindowId_def increaseZIndex_def)
next
  case False
  then show ?thesis
    by (simp add: handleSetFocusedWindowId_def increaseZIndex_def Let_def getBiggestZIndex_Max)
qed

theorem focus_raises_witness:
  "[] \<notin> set (ids (step (OpenApp calculator ''a'') initState))
   \<and> map zIndex (openedApps (step (OpenApp calculator ''a'') initState)) = [1]
   \<and> map zIndex (openedApps (step (Focus (Some ''a'')) (step (OpenApp calculator ''a'') initState)))
       = [2]
   \<and> focusedWindowId (step (Focus (Some ''a'')) (step (OpenApp calculator ''a'') initState))
       = Some ''a''"
proof -
  have opened: "step (OpenApp calculator ''a'') initState
      = \<lparr>openedApps = [createApp initState ''a'' calculator], focusedWindowId = Some ''a''\<rparr>"
    by (simp add: openApp_def handleSetFocusedWindowId_def increaseZIndex_def createApp_def
        initState_def getBiggestZIndex_def Let_def)
  have nonempty: "[] \<notin> set (ids (step (OpenApp calculator ''a'') initState))"
    unfolding opened by (simp add: ids_def createApp_def)
  from focus_raises [OF nonempty, of "''a''"] nonempty show ?thesis
    unfolding opened by (simp add: createApp_def initState_def getBiggestZIndex_def)
qed

lemma filter_one_split:
  assumes "length (filter P xs) = 1"
  shows "\<exists>pre w post. xs = pre @ w # post \<and> P w \<and> filter (\<lambda>x. \<not> P x) xs = pre @ post"
proof -
  from assms obtain w where "filter P xs = [w]"
    by (cases "filter P xs") auto
  then obtain pre post where xs: "xs = pre @ w # post" and pre: "\<forall>u\<in>set pre. \<not> P u"
    and w: "P w" and post: "filter P post = []"
    unfolding filter_eq_Cons_iff by auto
  from post have "\<forall>u\<in>set post. \<not> P u" by (simp add: filter_empty_conv)
  with pre have "filter (\<lambda>x. \<not> P x) pre = pre" "filter (\<lambda>x. \<not> P x) post = post"
    by simp_all
  with xs w show ?thesis by auto
qed

text \<open>
  Claim C8. When exactly one open window has the id, \<open>closeApp(id)\<close> removes that
  window and nothing else: there is one window fewer, and the others are as they were
  and in their order. In every state no window has the id after \<open>closeApp(id)\<close>, and
  \<open>focusedWindowId\<close> is as it was, also when it is the closed id. In every state
  \<open>closeAllApps()\<close> empties \<open>openedApps\<close> and leaves \<open>focusedWindowId\<close> as it was.
\<close>

theorem closeApp_removes_one:
  "(length (filter (\<lambda>app. app_id app = i) (openedApps s)) = 1 \<longrightarrow>
       length (openedApps (closeApp i s)) + 1 = length (openedApps s)
       \<and> (\<exists>pre w post. openedApps s = pre @ w # post \<and> app_id w = i
             \<and> openedApps (closeApp i s) = pre @ post))
   \<and> i \<notin> set (ids (closeApp i s))
   \<and> focusedWindowId (closeApp i s) = focusedWindowId s
   \<and> openedApps (closeAllApps s) = []
   \<and> focusedWindowId (closeAllApps s) = focusedWindowId s"
proof (intro conjI impI)
  assume one: "length (filter (\<lambda>app. app_id app = i) (openedApps s)) = 1"
  from filter_one_split [OF one] obtain pre w post
    where split: "openedApps s = pre @ w # post" "app_id w = i"
      "filter (\<lambda>app. app_id app \<noteq> i) (openedApps s) = pre @ post"
    by blast
  then show "length (openedApps (closeApp i s)) + 1 = length (openedApps s)"
    by (simp add: closeApp_def)
  show "\<exists>pre w post. openedApps s = pre @ w # post \<and> app_id w = i
          \<and> openedApps (closeApp i s) = pre @ post"
    using split by (auto simp add: closeApp_def)
next
  show "i \<notin> set (ids (closeApp i s))"
    by (auto simp add: closeApp_def ids_def)
next
  show "focusedWindowId (closeApp i s) = focusedWindowId s"
    by (simp add: closeApp_def)
next
  show "openedApps (closeAllApps s) = []"
    by (simp add: closeAllApps_def)
next
  show "focusedWindowId (closeAllApps s) = focusedWindowId s"
    by (simp add: closeAllApps_def)
qed

theorem closeApp_removes_one_witness:
  "length (filter (\<lambda>app. app_id app = ''b'')
       (openedApps (run [OpenApp calculator ''a'', OpenApp tasks ''b'', OpenApp other_app ''c'']
          initState))) = 1
   \<and> openedApps (closeApp ''b''
         (run [OpenApp calculator ''a'', OpenApp tasks ''b'', OpenApp other_app ''c''] initState))
       = [openedApps (run [OpenApp calculator ''a'', OpenApp tasks ''b'', OpenApp other_app ''c'']
            initState) ! 0,
          openedApps (run [OpenApp calculator ''a'', OpenApp tasks ''b'', OpenApp other_app ''c'']
            initState) ! 2]
   \<and> map app_id (openedApps (closeApp ''b''
         (run [OpenApp calculator ''a'', OpenApp tasks ''b'', OpenApp other_app ''c''] initState)))
       = [''a'', ''c'']
   \<and> focusedWindowId (closeApp ''c''
         (run [OpenApp calculator ''a'', OpenApp tasks ''b'', OpenApp other_app ''c''] initState))
       = Some ''c''
   \<and> openedApps (closeAllApps (run [OpenApp calculator ''a'', CloseApp ''a''] initState)) = []
   \<and> focusedWindowId (closeAllApps (run [OpenApp calculator ''a'', CloseApp ''a''] initState))
       = Some ''a''"
proof -
  let ?s = "run [OpenApp calculator ''a'', OpenApp tasks ''b'', OpenApp other_app ''c''] initState"
  let ?d = "run [OpenApp calculator ''a'', CloseApp ''a''] initState"
  have ids: "map app_id (openedApps ?s) = [''a'', ''b'', ''c'']"
    by (simp add: openApp_def handleSetFocusedWindowId_def increaseZIndex_def createApp_def
        initState_def Let_def)
  have three: "length (openedApps ?s) = 3"
    using arg_cong [OF ids, of length] by simp
  then obtain wa wb wc where apps: "openedApps ?s = [wa, wb, wc]"
    by (auto simp add: length_Suc_conv numeral_3_eq_3)
  with ids have named: "app_id wa = ''a''" "app_id wb = ''b''" "app_id wc = ''c''"
    by simp_all
  have one: "length (filter (\<lambda>app. app_id app = ''b'') (openedApps ?s)) = 1"
    unfolding apps by (simp add: named)
  have closed: "openedApps (closeApp ''b'' ?s) = [openedApps ?s ! 0, openedApps ?s ! 2]"
    unfolding closeApp_def apps by (simp add: named)
  have left: "map app_id (openedApps (closeApp ''b'' ?s)) = [''a'', ''c'']"
    unfolding closed apps by (simp add: named)
  have focus: "focusedWindowId ?s = Some ''c''"
    by (simp add: openApp_def handleSetFocusedWindowId_def increaseZIndex_def createApp_def
        initState_def Let_def)
  have dangling: "focusedWindowId ?d = Some ''a''"
    by (simp add: openApp_def handleSetFocusedWindowId_def increaseZIndex_def createApp_def
        closeApp_def initState_def Let_def)
  from closeApp_removes_one [of "''b''" ?s] closeApp_removes_one [of "''c''" ?s]
    closeApp_removes_one [of i ?d for i]
  show ?thesis using one closed left focus dangling by simp
qed









subsection \<open>The stacking invariant\<close>

lemma run_append: "run (xs @ ys) s = run ys (run xs s)"
  by (induction xs arbitrary: s) auto

lemma zIndex_le_biggest: "app \<in> set apps \<Longrightarrow> zIndex app \<le> getBiggestZIndex apps"
  by (simp add: getBiggestZIndex_Max)

lemma biggest_nonneg: "0 \<le> getBiggestZIndex apps"
  by (simp add: getBiggestZIndex_Max)

lemma createApp_fields:
  "app_id (createApp s newId ty) = newId"
  "zIndex (createApp s newId ty) = getBiggestZIndex (openedApps s) + 1"
  "isMinimalize (createApp s newId ty) = False"
  by (cases ty; simp add: createApp_def)+

lemma openApp_fresh:
  assumes "newId \<notin> set (ids s)"
  shows "openApp s newId ty s
           = \<lparr>openedApps = openedApps s @ [createApp s newId ty], focusedWindowId = Some newId\<rparr>"
proof -
  have "(createApp s newId ty)\<lparr>zIndex := getBiggestZIndex (openedApps s) + 1\<rparr> = createApp s newId ty"
    by (cases ty; simp add: createApp_def)
  with assms show ?thesis
    by (simp add: openApp_def handleSetFocusedWindowId_def increaseZIndex_def Let_def
        createApp_fields ids_def map_absent)
qed

lemma focus_apps:
  "openedApps (handleSetFocusedWindowId s x s)
     = (case x of
          None \<Rightarrow> openedApps s
        | Some i \<Rightarrow>
            if i = [] then openedApps s
            else map (\<lambda>app. if app_id app = i
                        then app\<lparr>zIndex := getBiggestZIndex (openedApps s) + 1\<rparr> else app)
                   (openedApps s))"
  by (simp add: handleSetFocusedWindowId_def increaseZIndex_def Let_def split: option.splits)

lemma raise_ids:
  "map app_id (map (\<lambda>app. if app_id app = i then app\<lparr>zIndex := n\<rparr> else app) apps) = map app_id apps"
  by (induction apps) auto

lemma raise_zIndex_set:
  "set (map zIndex (map (\<lambda>app. if app_id app = i then app\<lparr>zIndex := n\<rparr> else app) apps))
     \<subseteq> insert n (set (map zIndex apps))"
  by (induction apps) auto

lemma raise_distinct:
  assumes "distinct (map app_id apps)" and "distinct (map zIndex apps)"
    and "\<forall>app\<in>set apps. zIndex app < n"
  shows "distinct (map zIndex (map (\<lambda>app. if app_id app = i then app\<lparr>zIndex := n\<rparr> else app) apps))"
  using assms
proof (induction apps)
  case Nil
  then show ?case by simp
next
  case (Cons x xs)
  let ?f = "\<lambda>app. if app_id app = i then app\<lparr>zIndex := n\<rparr> else app"
  from Cons have IH: "distinct (map zIndex (map ?f xs))" by simp
  show ?case
  proof (cases "app_id x = i")
    case True
    with Cons.prems(1) have "i \<notin> set (map app_id xs)" by auto
    then have "map ?f xs = xs" by (rule map_absent)
    moreover from Cons.prems(3) have "n \<notin> zIndex ` set xs" by auto
    ultimately show ?thesis using True Cons.prems(2) by simp
  next
    case False
    from Cons.prems(3) have "zIndex x \<noteq> n" by auto
    moreover from Cons.prems(2) have "zIndex x \<notin> set (map zIndex xs)" by simp
    ultimately have "zIndex x \<notin> insert n (set (map zIndex xs))" by simp
    with raise_zIndex_set [of i n xs]
    have notin: "zIndex x \<notin> set (map zIndex (map ?f xs))" by (rule contra_subsetD)
    from False have "map zIndex (map ?f (x # xs)) = zIndex x # map zIndex (map ?f xs)"
      by simp
    with notin IH show ?thesis by (simp only: distinct.simps simp_thms)
  qed
qed

lemma zorder_inv_init: "zorder_inv initState"
  by (simp add: zorder_inv_def initState_def ids_def)

lemma zorder_inv_open:
  assumes "zorder_inv s" and "newId \<notin> set (ids s)"
  shows "zorder_inv (step (OpenApp ty newId) s)"
proof -
  have above: "\<forall>app\<in>set (openedApps s). zIndex app < getBiggestZIndex (openedApps s) + 1"
    using zIndex_le_biggest by fastforce
  then have "getBiggestZIndex (openedApps s) + 1 \<notin> zIndex ` set (openedApps s)" by auto
  moreover have "1 \<le> getBiggestZIndex (openedApps s) + 1"
    using biggest_nonneg [of "openedApps s"] by simp
  ultimately show ?thesis
    using assms by (simp add: openApp_fresh zorder_inv_def ids_def createApp_fields)
qed

lemma zorder_inv_focus:
  assumes "zorder_inv s"
  shows "zorder_inv (step (Focus x) s)"
proof (cases "x = None \<or> x = Some []")
  case True
  then have "openedApps (handleSetFocusedWindowId s x s) = openedApps s"
    by (auto simp add: focus_apps)
  with assms show ?thesis by (simp add: zorder_inv_def ids_def)
next
  case False
  then obtain i where x: "x = Some i" "i \<noteq> []" by auto
  let ?n = "getBiggestZIndex (openedApps s) + 1"
  let ?f = "\<lambda>app. if app_id app = i then app\<lparr>zIndex := ?n\<rparr> else app"
  have apps: "openedApps (handleSetFocusedWindowId s x s) = map ?f (openedApps s)"
    using x by (simp add: focus_apps)
  have above: "\<forall>app\<in>set (openedApps s). zIndex app < ?n"
    using zIndex_le_biggest by fastforce
  from assms have "distinct (map zIndex (map ?f (openedApps s)))"
    unfolding zorder_inv_def ids_def using above by (intro raise_distinct) simp_all
  moreover have "list_all (\<lambda>app. 1 \<le> zIndex app) (map ?f (openedApps s))"
    using assms biggest_nonneg [of "openedApps s"]
    by (auto simp add: zorder_inv_def list_all_iff)
  moreover have "distinct (map app_id (map ?f (openedApps s)))"
    using assms unfolding zorder_inv_def ids_def raise_ids by simp
  ultimately have "zorder_inv (handleSetFocusedWindowId s x s)"
    unfolding zorder_inv_def ids_def apps by simp
  then show ?thesis by simp
qed

lemma zorder_inv_close: "zorder_inv s \<Longrightarrow> zorder_inv (step (CloseApp i) s)"
  by (simp add: zorder_inv_def closeApp_def ids_def distinct_map_filter list_all_iff)

lemma zorder_inv_closeAll: "zorder_inv (step CloseAllApps s)"
  by (simp add: zorder_inv_def closeAllApps_def ids_def)

lemma flag_map_ids:
  "map app_id (map (\<lambda>app. if app_id app = i then app\<lparr>isMinimalize := v\<rparr> else app) apps) = map app_id apps"
  "map app_id (map (\<lambda>app. if app_id app = i then app\<lparr>isFullscreen := v\<rparr> else app) apps) = map app_id apps"
  by (induction apps) auto

lemma flag_map_zIndex:
  "map zIndex (map (\<lambda>app. if app_id app = i then app\<lparr>isMinimalize := v\<rparr> else app) apps) = map zIndex apps"
  "map zIndex (map (\<lambda>app. if app_id app = i then app\<lparr>isFullscreen := v\<rparr> else app) apps) = map zIndex apps"
  by (induction apps) auto

lemma list_all_zIndex: "list_all (\<lambda>app. 1 \<le> zIndex app) apps \<longleftrightarrow> list_all (\<lambda>z. 1 \<le> z) (map zIndex apps)"
  by (simp add: list_all_iff)

lemma zorder_inv_flags:
  "zorder_inv s \<Longrightarrow> zorder_inv (step (SetIsMinimalize i v) s)"
  "zorder_inv s \<Longrightarrow> zorder_inv (step (SetIsFullscreen i v) s)"
  by (simp_all add: zorder_inv_def setIsMinimalize_def setIsFullscreen_def ids_def
      flag_map_ids list_all_zIndex flag_map_zIndex del: map_map)

lemma along_append: "along P (xs @ ys) s \<longleftrightarrow> along P xs s \<and> along P ys (run xs s)"
  by (induction xs arbitrary: s) auto

lemma along_conj: "along (\<lambda>a s. P a s \<and> Q a s) acts s \<longleftrightarrow> along P acts s \<and> along Q acts s"
  by (induction acts arbitrary: s) auto

lemma along_invariant:
  assumes "I s" and "along P acts s" and "\<And>a s. I s \<Longrightarrow> P a s \<Longrightarrow> I (step a s)"
  shows "I (run acts s)"
  using assms(1,2)
proof (induction acts arbitrary: s)
  case Nil
  then show ?case by simp
next
  case (Cons a acts)
  from Cons.prems have "I (step a s)" "along P acts (step a s)"
    using assms(3) by simp_all
  then show ?case using Cons.IH by simp
qed

lemma zorder_inv_step:
  assumes "zorder_inv s" and "fresh_id a s"
  shows "zorder_inv (step a s)"
proof (cases a)
  case (OpenApp ty newId)
  with assms show ?thesis using zorder_inv_open [of s newId ty] by simp
next
  case (CloseApp i)
  with assms show ?thesis using zorder_inv_close [of s i] by simp
next
  case CloseAllApps
  then show ?thesis using zorder_inv_closeAll [of s] by simp
next
  case (SetIsMinimalize i v)
  with assms show ?thesis using zorder_inv_flags(1) [of s i v] by simp
next
  case (SetIsFullscreen i v)
  with assms show ?thesis using zorder_inv_flags(2) [of s i v] by simp
next
  case (Focus x)
  with assms show ?thesis using zorder_inv_focus [of s x] by simp
qed

lemma zorder_inv_run:
  assumes "zorder_inv s" and "fresh_ids acts s"
  shows "zorder_inv (run acts s)"
  using assms(1) assms(2) [unfolded fresh_ids_def] zorder_inv_step
  by (rule along_invariant)

lemma biggest_mono_map:
  assumes "\<forall>app\<in>set apps. zIndex app \<le> zIndex (f app)"
  shows "getBiggestZIndex apps \<le> getBiggestZIndex (map f apps)"
proof -
  have "\<forall>z\<in>insert 0 (zIndex ` set apps). z \<le> Max (insert 0 (zIndex ` set (map f apps)))"
  proof
    fix z assume "z \<in> insert 0 (zIndex ` set apps)"
    then consider "z = 0" | app where "app \<in> set apps" "z = zIndex app" by auto
    then show "z \<le> Max (insert 0 (zIndex ` set (map f apps)))"
    proof cases
      case 1
      then show ?thesis by simp
    next
      case 2
      then have "zIndex (f app) \<in> insert 0 (zIndex ` set (map f apps))" by simp
      then have "zIndex (f app) \<le> Max (insert 0 (zIndex ` set (map f apps)))"
        by (intro Max_ge) simp_all
      moreover from 2 assms have "z \<le> zIndex (f app)" by blast
      ultimately show ?thesis by (rule order_trans [rotated])
    qed
  qed
  then show ?thesis by (simp only: getBiggestZIndex_Max Max_le_iff finite_insert finite_imageI finite_set insert_not_empty simp_thms)
qed

lemma biggest_append: "getBiggestZIndex apps \<le> getBiggestZIndex (apps @ others)"
  by (simp add: getBiggestZIndex_Max)

lemma biggest_step_mono:
  assumes "is_open_or_focus a" and "fresh_id a s"
  shows "getBiggestZIndex (openedApps s) \<le> getBiggestZIndex (openedApps (step a s))"
proof (cases a)
  case (OpenApp ty newId)
  with assms(2) show ?thesis by (simp add: openApp_fresh biggest_append)
next
  case (Focus x)
  let ?n = "getBiggestZIndex (openedApps s) + 1"
  have "\<forall>app\<in>set (openedApps s).
          zIndex app \<le> zIndex (if app_id app = i then app\<lparr>zIndex := ?n\<rparr> else app)" for i
    using zIndex_le_biggest by fastforce
  then have "getBiggestZIndex (openedApps s)
      \<le> getBiggestZIndex (map (\<lambda>app. if app_id app = i then app\<lparr>zIndex := ?n\<rparr> else app) (openedApps s))" for i
    by (rule biggest_mono_map)
  with Focus show ?thesis by (simp add: focus_apps split: option.splits)
qed (use assms in simp_all)

lemma biggest_run_mono:
  assumes "list_all is_open_or_focus acts" and "fresh_ids acts s"
  shows "getBiggestZIndex (openedApps s) \<le> getBiggestZIndex (openedApps (run acts s))"
  using assms unfolding fresh_ids_def
proof (induction acts arbitrary: s)
  case Nil
  then show ?case by simp
next
  case (Cons a acts)
  then have "getBiggestZIndex (openedApps s) \<le> getBiggestZIndex (openedApps (step a s))"
    by (simp add: biggest_step_mono del: step.simps)
  moreover from Cons have "getBiggestZIndex (openedApps (step a s))
      \<le> getBiggestZIndex (openedApps (run acts (step a s)))"
    by (simp del: step.simps)
  ultimately show ?case by simp
qed

lemma step_assigns:
  assumes "affected a (app_id w)" and "fresh_id a s" and "w \<in> set (openedApps (step a s))"
  shows "zIndex w = getBiggestZIndex (openedApps s) + 1"
proof (cases a)
  case (OpenApp ty newId)
  with assms have mem: "w \<in> set (openedApps s) \<or> w = createApp s newId ty"
    and named: "app_id w = newId" and fresh: "newId \<notin> set (ids s)"
    by (auto simp add: openApp_fresh)
  from fresh have "\<forall>app\<in>set (openedApps s). app_id app \<noteq> newId"
    by (auto simp add: ids_def)
  with named have "w \<notin> set (openedApps s)" by blast
  with mem have "w = createApp s newId ty" by blast
  then have "zIndex w = zIndex (createApp s newId ty)" by (rule arg_cong)
  also have "\<dots> = getBiggestZIndex (openedApps s) + 1" by (rule createApp_fields)
  finally show ?thesis .
next
  case (Focus x)
  with assms(1) obtain i where x: "x = Some i" "i \<noteq> []" and named: "app_id w = i"
    by (cases x) auto
  let ?n = "getBiggestZIndex (openedApps s) + 1"
  let ?f = "\<lambda>app. if app_id app = i then app\<lparr>zIndex := ?n\<rparr> else app"
  from Focus x assms(3) have "w \<in> set (map ?f (openedApps s))"
    by (simp add: focus_apps)
  then obtain u where u: "u \<in> set (openedApps s)" "w = ?f u" by auto
  show ?thesis
  proof (cases "app_id u = i")
    case True
    with u show ?thesis by simp
  next
    case False
    with u have "app_id w \<noteq> i" by simp
    with named show ?thesis by simp
  qed
qed (use assms in simp_all)

lemma state_after_Suc:
  "k < length acts \<Longrightarrow> state_after acts (Suc k) = step (acts ! k) (state_after acts k)"
  by (simp add: state_after_def take_Suc_conv_app_nth run_append)

lemma take_split: "j \<le> k \<Longrightarrow> take k acts = take j acts @ drop j (take k acts)"
proof -
  assume "j \<le> k"
  then have "take j (take k acts) = take j acts" by (simp add: min_def)
  then show ?thesis using append_take_drop_id [of j "take k acts"] by simp
qed

lemma state_after_run:
  "j \<le> k \<Longrightarrow> state_after acts k = run (drop j (take k acts)) (state_after acts j)"
  unfolding state_after_def using take_split [of j k acts] run_append by metis

lemma along_take: "along P acts s \<Longrightarrow> along P (take k acts) s"
  using along_append [of P "take k acts" "drop k acts" s] by simp

lemma along_segment:
  assumes "along P acts s" and "j \<le> k"
  shows "along P (drop j (take k acts)) (run (take j acts) s)"
proof -
  from assms(1) have "along P (take k acts) s" by (rule along_take)
  then have "along P (take j acts @ drop j (take k acts)) s"
    using take_split [OF assms(2), of acts] by simp
  then show ?thesis by (simp only: along_append)
qed

lemma along_nth:
  assumes "along P acts s" and "k < length acts"
  shows "P (acts ! k) (run (take k acts) s)"
proof -
  from assms(2) have "acts = take k acts @ acts ! k # drop (Suc k) acts"
    by (rule id_take_nth_drop)
  then have "along P (take k acts @ acts ! k # drop (Suc k) acts) s"
    using assms(1) by simp
  then show ?thesis by (simp only: along_append along.simps)
qed

lemma list_all_segment: "list_all P acts \<Longrightarrow> list_all P (drop j (take k acts))"
  unfolding list_all_iff by (meson in_set_dropD in_set_takeD)

lemma zorder_inv_state_after:
  assumes "fresh_ids acts initState"
  shows "zorder_inv (state_after acts k)"
proof -
  from assms have "fresh_ids (take k acts) initState"
    unfolding fresh_ids_def by (rule along_take)
  with zorder_inv_init show ?thesis unfolding state_after_def by (rule zorder_inv_run)
qed

lemma biggest_is_Max:
  assumes "zorder_inv s"
  shows "getBiggestZIndex (openedApps s)
           = (if openedApps s = [] then 0 else Max (zIndex ` set (openedApps s)))"
proof (cases "openedApps s")
  case Nil
  then show ?thesis by (simp add: getBiggestZIndex_def)
next
  case (Cons x xs)
  with assms have "1 \<le> zIndex x" by (simp add: zorder_inv_def)
  moreover have "zIndex x \<le> Max (zIndex ` set (openedApps s))"
    using Cons by (intro Max_ge) simp_all
  ultimately have "0 \<le> Max (zIndex ` set (openedApps s))" by simp
  moreover have "Max (insert 0 (zIndex ` set (openedApps s)))
       = max 0 (Max (zIndex ` set (openedApps s)))"
    using Cons by (intro Max_insert) simp_all
  ultimately show ?thesis using Cons by (simp add: getBiggestZIndex_Max)
qed

lemma assigned_above_earlier:
  assumes only: "list_all is_open_or_focus acts" and fresh: "fresh_ids acts initState"
    and k: "k < length acts" and j: "j \<le> k"
    and w: "w \<in> set (openedApps (state_after acts (Suc k)))"
    and target: "affected (acts ! k) (app_id w)"
    and v: "v \<in> set (openedApps (state_after acts j))"
  shows "zIndex v < zIndex w"
proof -
  have "fresh_id (acts ! k) (state_after acts k)"
    using fresh k unfolding fresh_ids_def state_after_def by (rule along_nth)
  moreover from w k have "w \<in> set (openedApps (step (acts ! k) (state_after acts k)))"
    by (simp only: state_after_Suc)
  ultimately have assigned: "zIndex w = getBiggestZIndex (openedApps (state_after acts k)) + 1"
    using target by (intro step_assigns)
  have "fresh_ids (drop j (take k acts)) (state_after acts j)"
    using fresh j unfolding fresh_ids_def state_after_def by (rule along_segment)
  moreover from only have "list_all is_open_or_focus (drop j (take k acts))"
    by (rule list_all_segment)
  ultimately have "getBiggestZIndex (openedApps (state_after acts j))
      \<le> getBiggestZIndex (openedApps (run (drop j (take k acts)) (state_after acts j)))"
    by (intro biggest_run_mono)
  then have "getBiggestZIndex (openedApps (state_after acts j))
      \<le> getBiggestZIndex (openedApps (state_after acts k))"
    using state_after_run [OF j, of acts] by simp
  moreover from v have "zIndex v \<le> getBiggestZIndex (openedApps (state_after acts j))"
    by (rule zIndex_le_biggest)
  ultimately show ?thesis using assigned by simp
qed

text \<open>
  Claim C1. Take a sequence of \<open>openApp\<close> and \<open>focus\<close> actions that starts from the empty
  registry, each \<open>openApp\<close> with an unused identifier. The window that the action number
  \<open>k\<close> assigns an index to holds, after that action, an index greater than the index of
  every window in every state up to the one the action started from; these states hold
  every index assigned before. In every state of the sequence no two windows share an
  index, and \<open>getBiggestZIndex\<close> is \<open>0\<close> when no window is open and the maximum of the
  indices of the open windows otherwise.
\<close>

theorem zIndex_monotone:
  assumes "list_all is_open_or_focus acts" and "fresh_ids acts initState"
  shows "(\<forall>k<length acts. \<forall>j\<le>k.
            \<forall>w\<in>set (openedApps (state_after acts (Suc k))).
            \<forall>v\<in>set (openedApps (state_after acts j)).
              affected (acts ! k) (app_id w) \<longrightarrow> zIndex v < zIndex w)
       \<and> (\<forall>k. distinct (map zIndex (openedApps (state_after acts k))))
       \<and> (\<forall>k. getBiggestZIndex (openedApps (state_after acts k))
                = (if openedApps (state_after acts k) = [] then 0
                   else Max (zIndex ` set (openedApps (state_after acts k)))))"
proof (intro conjI allI impI ballI)
  fix k j w v
  assume "k < length acts" "j \<le> k" "w \<in> set (openedApps (state_after acts (Suc k)))"
    "v \<in> set (openedApps (state_after acts j))" "affected (acts ! k) (app_id w)"
  with assms show "zIndex v < zIndex w" by (intro assigned_above_earlier [of acts k j w v])
next
  fix k
  from assms(2) have "zorder_inv (state_after acts k)" by (rule zorder_inv_state_after)
  then show "distinct (map zIndex (openedApps (state_after acts k)))"
    by (simp add: zorder_inv_def)
next
  fix k
  from assms(2) have "zorder_inv (state_after acts k)" by (rule zorder_inv_state_after)
  then show "getBiggestZIndex (openedApps (state_after acts k))
                = (if openedApps (state_after acts k) = [] then 0
                   else Max (zIndex ` set (openedApps (state_after acts k))))"
    by (rule biggest_is_Max)
qed

theorem zIndex_monotone_witness:
  "list_all is_open_or_focus [OpenApp calculator ''a'', OpenApp tasks ''b'', Focus (Some ''a'')]
   \<and> fresh_ids [OpenApp calculator ''a'', OpenApp tasks ''b'', Focus (Some ''a'')] initState
   \<and> distinct (map zIndex (openedApps
         (state_after [OpenApp calculator ''a'', OpenApp tasks ''b'', Focus (Some ''a'')] 3)))
   \<and> getBiggestZIndex (openedApps
         (state_after [OpenApp calculator ''a'', OpenApp tasks ''b'', Focus (Some ''a'')] 3))
       = Max (zIndex ` set (openedApps
         (state_after [OpenApp calculator ''a'', OpenApp tasks ''b'', Focus (Some ''a'')] 3)))
   \<and> map zIndex (openedApps
         (state_after [OpenApp calculator ''a'', OpenApp tasks ''b'', Focus (Some ''a'')] 3))
       = [3, 2]"
proof -
  let ?acts = "[OpenApp calculator ''a'', OpenApp tasks ''b'', Focus (Some ''a'')]"
  have only: "list_all is_open_or_focus ?acts" by simp
  have fresh: "fresh_ids ?acts initState"
    by (simp add: fresh_ids_def ids_def openApp_def handleSetFocusedWindowId_def
        increaseZIndex_def createApp_def initState_def Let_def)
  have final: "map zIndex (openedApps (state_after ?acts 3)) = [3, 2]"
    by (simp add: state_after_def openApp_def handleSetFocusedWindowId_def
        increaseZIndex_def createApp_def initState_def getBiggestZIndex_def Let_def)
  then have "openedApps (state_after ?acts 3) \<noteq> []" by auto
  with zIndex_monotone [OF only fresh] only fresh final show ?thesis by simp
qed

subsection \<open>The target of the focus\<close>

lemma at_most_one_match:
  "distinct (map f xs) \<Longrightarrow> length (filter (\<lambda>x. c = Some (f x)) xs) \<le> 1"
proof (induction xs)
  case Nil
  then show ?case by simp
next
  case (Cons x xs)
  show ?case
  proof (cases "c = Some (f x)")
    case True
    with Cons.prems have "\<forall>y\<in>set xs. c \<noteq> Some (f y)" by auto
    then have "filter (\<lambda>x. c = Some (f x)) xs = []" by (simp add: filter_empty_conv)
    with True show ?thesis by simp
  next
    case False
    with Cons show ?thesis by simp
  qed
qed

lemma ids_openApp: "ids (openApp s newId ty s) = ids s @ [newId]"
  by (simp add: openApp_def handleSetFocusedWindowId_def increaseZIndex_def ids_def Let_def
      createApp_fields raise_ids del: map_map map_append)
    (simp add: createApp_fields)

lemma ids_focus: "ids (handleSetFocusedWindowId s x s) = ids s"
  by (simp add: ids_def focus_apps raise_ids split: option.splits del: map_map)

lemma ids_setIsMinimalize: "ids (setIsMinimalize s i v s) = ids s"
  by (simp add: ids_def setIsMinimalize_def flag_map_ids del: map_map)

lemma ids_setIsFullscreen: "ids (setIsFullscreen i v s) = ids s"
  by (simp add: ids_def setIsFullscreen_def flag_map_ids del: map_map)

lemma focus_open_step:
  assumes "focus_open s" and "keeps_focus_target a s"
  shows "focus_open (step a s)"
proof (cases a)
  case (OpenApp ty newId)
  have "focusedWindowId (openApp s newId ty s) = Some newId"
    by (simp add: openApp_def handleSetFocusedWindowId_def createApp_fields Let_def)
  with OpenApp show ?thesis by (simp add: focus_open_def ids_openApp split: option.splits)
next
  case (CloseApp i)
  with assms show ?thesis
    by (auto simp add: focus_open_def closeApp_def ids_def split: option.splits)
next
  case CloseAllApps
  with assms show ?thesis by (simp add: focus_open_def closeAllApps_def)
next
  case (SetIsMinimalize i v)
  have "focusedWindowId (setIsMinimalize s i v s) = None
      \<or> focusedWindowId (setIsMinimalize s i v s) = focusedWindowId s"
    by (simp add: setIsMinimalize_def)
  with SetIsMinimalize assms(1) show ?thesis
    by (auto simp add: focus_open_def ids_setIsMinimalize split: option.splits)
next
  case (SetIsFullscreen i v)
  have "focusedWindowId (setIsFullscreen i v s) = focusedWindowId s"
    by (simp add: setIsFullscreen_def)
  with SetIsFullscreen assms(1) show ?thesis
    by (simp add: focus_open_def ids_setIsFullscreen split: option.splits)
next
  case (Focus x)
  have "focusedWindowId (handleSetFocusedWindowId s x s) = x"
    by (simp add: handleSetFocusedWindowId_def)
  with Focus assms(2) show ?thesis
    by (cases x) (simp_all add: focus_open_def ids_focus split: option.splits)
qed

text \<open>
  Claim C4, as amended. After every sequence of registry actions that starts from the
  empty registry, each \<open>openApp\<close> with an unused identifier, at most one open window has
  the id \<open>focusedWindowId\<close>. If moreover no action of the sequence closes the focused
  window and no \<open>focus\<close> names an id that is not open, then \<open>focusedWindowId\<close> is \<open>null\<close> or
  the id of an open window.
\<close>

theorem focus_target:
  assumes "fresh_ids acts initState"
  shows "length (filter (\<lambda>app. focusedWindowId (run acts initState) = Some (app_id app))
                  (openedApps (run acts initState))) \<le> 1
       \<and> (along keeps_focus_target acts initState \<longrightarrow> focus_open (run acts initState))"
proof
  from zorder_inv_init assms have "zorder_inv (run acts initState)" by (rule zorder_inv_run)
  then have "distinct (map app_id (openedApps (run acts initState)))"
    by (simp add: zorder_inv_def ids_def)
  then show "length (filter (\<lambda>app. focusedWindowId (run acts initState) = Some (app_id app))
                  (openedApps (run acts initState))) \<le> 1"
    by (rule at_most_one_match)
next
  have "focus_open initState" by (simp add: focus_open_def initState_def)
  then show "along keeps_focus_target acts initState \<longrightarrow> focus_open (run acts initState)"
    using along_invariant [of focus_open initState keeps_focus_target acts] focus_open_step
    by blast
qed

theorem focus_target_witness:
  "fresh_ids [OpenApp calculator ''a'', OpenApp tasks ''b'', CloseApp ''a''] initState
   \<and> along keeps_focus_target [OpenApp calculator ''a'', OpenApp tasks ''b'', CloseApp ''a'']
       initState
   \<and> focus_open (run [OpenApp calculator ''a'', OpenApp tasks ''b'', CloseApp ''a''] initState)
   \<and> focusedWindowId (run [OpenApp calculator ''a'', OpenApp tasks ''b'', CloseApp ''a''] initState)
       = Some ''b''"
proof -
  let ?acts = "[OpenApp calculator ''a'', OpenApp tasks ''b'', CloseApp ''a'']"
  have fresh: "fresh_ids ?acts initState"
    by (simp add: fresh_ids_def ids_def openApp_def handleSetFocusedWindowId_def
        increaseZIndex_def createApp_def initState_def Let_def)
  have kept: "along keeps_focus_target ?acts initState"
    by (simp add: openApp_def handleSetFocusedWindowId_def increaseZIndex_def createApp_def
        initState_def Let_def)
  have focused: "focusedWindowId (run ?acts initState) = Some ''b''"
    by (simp add: openApp_def handleSetFocusedWindowId_def increaseZIndex_def createApp_def
        closeApp_def initState_def Let_def)
  from focus_target [OF fresh] fresh kept focused show ?thesis by simp
qed

text \<open>
  The claim as stated fails: \<open>closeApp\<close> does not touch \<open>focusedWindowId\<close>, so after the
  only window is opened and closed the focus still names it.
\<close>

theorem focus_dangles_after_close:
  "fresh_ids [OpenApp calculator ''a'', CloseApp ''a''] initState
   \<and> focusedWindowId (run [OpenApp calculator ''a'', CloseApp ''a''] initState) = Some ''a''
   \<and> openedApps (run [OpenApp calculator ''a'', CloseApp ''a''] initState) = []"
  by (simp add: fresh_ids_def ids_def openApp_def handleSetFocusedWindowId_def
      increaseZIndex_def createApp_def closeApp_def initState_def Let_def)

subsection \<open>Minimized windows and the focus\<close>

lemma minimized_focused_iff:
  "minimized_focused s \<longleftrightarrow>
     (\<exists>app\<in>set (openedApps s). isMinimalize app \<and> focusedWindowId s = Some (app_id app))"
  by (simp add: minimized_focused_def list_ex_iff)

lemma raised_or_flagged:
  assumes "w \<in> set (map (\<lambda>app. if app_id app = i then g app else app) apps)"
    and "\<And>app. isMinimalize (g app) = isMinimalize app"
    and "\<And>app. app_id (g app) = app_id app"
  shows "\<exists>u\<in>set apps. isMinimalize u = isMinimalize w \<and> app_id u = app_id w"
proof -
  from assms(1) obtain u where u: "u \<in> set apps" "w = (if app_id u = i then g u else u)"
    by auto
  then have "isMinimalize u = isMinimalize w \<and> app_id u = app_id w"
    by (cases "app_id u = i") (simp_all add: assms(2,3))
  with u(1) show ?thesis by blast
qed

lemma not_minimized_focused_step:
  assumes inv: "\<not> minimized_focused s" and guard: "fresh_id a s \<and> focuses_shown a s"
  shows "\<not> minimized_focused (step a s)"
proof (cases a)
  case (OpenApp ty newId)
  with guard have fresh: "newId \<notin> set (ids s)" by simp
  then have "\<forall>app\<in>set (openedApps s). Some newId \<noteq> Some (app_id app)"
    by (auto simp add: ids_def)
  with OpenApp fresh show ?thesis
    by (simp add: minimized_focused_iff openApp_fresh createApp_fields)
next
  case (CloseApp i)
  have "set (openedApps (closeApp i s)) \<subseteq> set (openedApps s)"
    "focusedWindowId (closeApp i s) = focusedWindowId s"
    by (simp_all add: closeApp_def)
  with inv CloseApp show ?thesis unfolding minimized_focused_iff by auto
next
  case CloseAllApps
  then show ?thesis by (simp add: minimized_focused_iff closeAllApps_def)
next
  case (SetIsMinimalize i v)
  let ?g = "\<lambda>app. if app_id app = i then app\<lparr>isMinimalize := v\<rparr> else app"
  have apps: "openedApps (setIsMinimalize s i v s) = map ?g (openedApps s)"
    by (simp add: setIsMinimalize_def)
  have focus: "focusedWindowId (setIsMinimalize s i v s)
      = (if focusedWindowId s = Some i \<and> i \<in> set (ids s) then None else focusedWindowId s)"
    by (simp add: setIsMinimalize_def list_ex_ids ids_def)
  show ?thesis
  proof
    assume "minimized_focused (step a s)"
    then obtain w where w: "w \<in> set (map ?g (openedApps s))" and flag: "isMinimalize w"
      and focused: "focusedWindowId (setIsMinimalize s i v s) = Some (app_id w)"
      unfolding SetIsMinimalize step.simps minimized_focused_iff apps by blast
    from w obtain u where u: "u \<in> set (openedApps s)" "w = ?g u" by auto
    then have named: "app_id w = app_id u" by (cases "app_id u = i") simp_all
    from focused have same: "focusedWindowId s = Some (app_id w)"
      and other: "\<not> (focusedWindowId s = Some i \<and> i \<in> set (ids s))"
      unfolding focus by (simp_all split: if_splits)
    from u(1) have "app_id u \<in> set (ids s)" by (simp add: ids_def)
    with other same named have "app_id u \<noteq> i" by auto
    with u(2) flag have "isMinimalize u" by simp
    with u(1) same named inv show False unfolding minimized_focused_iff by auto
  qed
next
  case (SetIsFullscreen i v)
  have focus: "focusedWindowId (setIsFullscreen i v s) = focusedWindowId s"
    by (simp add: setIsFullscreen_def)
  show ?thesis
  proof
    assume "minimized_focused (step a s)"
    then obtain w where
      w: "w \<in> set (map (\<lambda>app. if app_id app = i then app\<lparr>isFullscreen := v\<rparr> else app)
                  (openedApps s))"
      and flag: "isMinimalize w" and focused: "focusedWindowId s = Some (app_id w)"
      unfolding SetIsFullscreen step.simps minimized_focused_iff focus
      by (auto simp add: setIsFullscreen_def)
    from w have "\<exists>u\<in>set (openedApps s). isMinimalize u = isMinimalize w \<and> app_id u = app_id w"
      by (rule raised_or_flagged) simp_all
    with flag focused inv show False unfolding minimized_focused_iff by auto
  qed
next
  case (Focus x)
  show ?thesis
  proof (cases "x = None \<or> x = Some []")
    case True
    then have apps: "openedApps (handleSetFocusedWindowId s x s) = openedApps s"
      by (auto simp add: focus_apps)
    have focus: "focusedWindowId (handleSetFocusedWindowId s x s) = x"
      by (simp add: handleSetFocusedWindowId_def)
    show ?thesis
    proof
      assume "minimized_focused (step a s)"
      then obtain w where w: "w \<in> set (openedApps s)" and flag: "isMinimalize w"
        and focused: "x = Some (app_id w)"
        unfolding Focus step.simps minimized_focused_iff apps focus by blast
      from focused True have "x = Some []" by simp
      with Focus guard have "\<not> list_ex (\<lambda>app. app_id app = [] \<and> isMinimalize app) (openedApps s)"
        by simp
      with w flag focused \<open>x = Some []\<close> show False by (auto simp add: list_ex_iff)
    qed
  next
    case False
    then obtain i where x: "x = Some i" "i \<noteq> []" by auto
    let ?n = "getBiggestZIndex (openedApps s) + 1"
    have apps: "openedApps (handleSetFocusedWindowId s x s)
        = map (\<lambda>app. if app_id app = i then app\<lparr>zIndex := ?n\<rparr> else app) (openedApps s)"
      using x by (simp add: focus_apps)
    have focus: "focusedWindowId (handleSetFocusedWindowId s x s) = Some i"
      using x by (simp add: handleSetFocusedWindowId_def)
    from Focus guard x have shown:
      "\<not> list_ex (\<lambda>app. app_id app = i \<and> isMinimalize app) (openedApps s)"
      by simp
    show ?thesis
    proof
      assume "minimized_focused (step a s)"
      then obtain w where
        w: "w \<in> set (map (\<lambda>app. if app_id app = i then app\<lparr>zIndex := ?n\<rparr> else app)
                    (openedApps s))"
        and flag: "isMinimalize w" and focused: "Some i = Some (app_id w)"
        unfolding Focus step.simps minimized_focused_iff apps focus by blast
      from w have "\<exists>u\<in>set (openedApps s). isMinimalize u = isMinimalize w \<and> app_id u = app_id w"
        by (rule raised_or_flagged) simp_all
      with flag focused shown show False by (auto simp add: list_ex_iff)
    qed
  qed
qed

text \<open>
  Claim C5, as amended. In every state reached from the empty registry by registry
  actions, each \<open>openApp\<close> with an unused identifier and no \<open>focus\<close> called with the id of
  a window whose minimize flag is set, no window with its minimize flag set is the
  focused window.
\<close>

theorem minimized_never_focused:
  assumes "fresh_ids acts initState" and "along focuses_shown acts initState"
  shows "\<not> minimized_focused (run acts initState)"
proof -
  have "\<not> minimized_focused initState"
    by (simp add: minimized_focused_def initState_def)
  moreover from assms have "along (\<lambda>a s. fresh_id a s \<and> focuses_shown a s) acts initState"
    by (simp add: fresh_ids_def along_conj)
  ultimately show ?thesis
    using not_minimized_focused_step
    by (rule along_invariant [of "\<lambda>s. \<not> minimized_focused s"])
qed

theorem minimized_never_focused_witness:
  "fresh_ids [OpenApp calculator ''a'', SetIsMinimalize ''a'' True] initState
   \<and> along focuses_shown [OpenApp calculator ''a'', SetIsMinimalize ''a'' True] initState
   \<and> \<not> minimized_focused (run [OpenApp calculator ''a'', SetIsMinimalize ''a'' True] initState)
   \<and> map isMinimalize
        (openedApps (run [OpenApp calculator ''a'', SetIsMinimalize ''a'' True] initState)) = [True]"
proof -
  let ?acts = "[OpenApp calculator ''a'', SetIsMinimalize ''a'' True]"
  have fresh: "fresh_ids ?acts initState"
    by (simp add: fresh_ids_def ids_def initState_def)
  have shown: "along focuses_shown ?acts initState" by simp
  have flags: "map isMinimalize (openedApps (run ?acts initState)) = [True]"
    by (simp add: openApp_def handleSetFocusedWindowId_def increaseZIndex_def createApp_def
        setIsMinimalize_def initState_def Let_def)
  from minimized_never_focused [OF fresh shown] fresh shown flags show ?thesis by simp
qed

text \<open>
  The claim as stated fails: \<open>focus\<close> does not look at the minimize flag. After the
  window \<open>a\<close> is opened and minimized, \<open>focus(a)\<close> makes it the focused window while it is
  still minimized.
\<close>

theorem focus_on_minimized_window:
  "fresh_ids [OpenApp calculator ''a'', SetIsMinimalize ''a'' True, Focus (Some ''a'')] initState
   \<and> minimized_focused
       (run [OpenApp calculator ''a'', SetIsMinimalize ''a'' True, Focus (Some ''a'')] initState)"
  by (simp add: fresh_ids_def ids_def minimized_focused_def openApp_def
      handleSetFocusedWindowId_def increaseZIndex_def createApp_def setIsMinimalize_def
      initState_def Let_def)

end
